theory Spec2Isabelle
  imports Main
begin

section \<open>Text and patterns\<close>

text \<open>
  The scraper (\<^verbatim>\<open>src/webscraper/scraper.py\<close>) works on Python \<^verbatim>\<open>str\<close> values. A
  character of the model is a code point below 256 (\<^typ>\<open>char\<close>, read as Latin-1), so
  page texts with code points above 255 are outside the model. On that range the
  classes \<^verbatim>\<open>\d\<close>, \<^verbatim>\<open>\s\<close> and \<^verbatim>\<open>\w\<close> of Python's \<^verbatim>\<open>re\<close> (for \<^verbatim>\<open>str\<close> patterns)
  are the following sets.
\<close>

definition ord :: "char \<Rightarrow> nat" where
  "ord c = of_char c"

definition between :: "char \<Rightarrow> char \<Rightarrow> char \<Rightarrow> bool" where
  "between lo hi c \<longleftrightarrow> ord lo \<le> ord c \<and> ord c \<le> ord hi"

definition one_of :: "string \<Rightarrow> char \<Rightarrow> bool" where
  "one_of cs c \<longleftrightarrow> c \<in> set cs"

definition digit :: "char \<Rightarrow> bool" where
  "digit c \<longleftrightarrow> between CHR ''0'' CHR ''9'' c"

definition upper :: "char \<Rightarrow> bool" where
  "upper c \<longleftrightarrow> between CHR ''A'' CHR ''Z'' c"

definition lower :: "char \<Rightarrow> bool" where
  "lower c \<longleftrightarrow> between CHR ''a'' CHR ''z'' c"

definition alpha :: "char \<Rightarrow> bool" where
  "alpha c \<longleftrightarrow> upper c \<or> lower c"

definition alnum :: "char \<Rightarrow> bool" where
  "alnum c \<longleftrightarrow> alpha c \<or> digit c"

definition space :: "char \<Rightarrow> bool" where
  "space c \<longleftrightarrow> (9 \<le> ord c \<and> ord c \<le> 13) \<or> (28 \<le> ord c \<and> ord c \<le> 32)
     \<or> ord c = 133 \<or> ord c = 160"

definition word :: "char \<Rightarrow> bool" where
  "word c \<longleftrightarrow> alnum c \<or> c = CHR ''_''
     \<or> ord c \<in> {170, 178, 179, 181, 185, 186, 188, 189, 190}
     \<or> (192 \<le> ord c \<and> ord c \<le> 214) \<or> (216 \<le> ord c \<and> ord c \<le> 246) \<or> 248 \<le> ord c"

definition any_char :: "char \<Rightarrow> bool" where
  "any_char c \<longleftrightarrow> c \<noteq> CHR 0x0A"

text \<open>
  \<^verbatim>\<open>str.lower()\<close> on the same range: the ASCII capitals and the Latin-1 capitals
  \<^verbatim>\<open>0xC0..0xDE\<close> except \<^verbatim>\<open>0xD7\<close> move up by 32.
\<close>

definition lower_char :: "char \<Rightarrow> char" where
  "lower_char c =
     (if upper c \<or> (192 \<le> ord c \<and> ord c \<le> 222 \<and> ord c \<noteq> 215) then char_of (ord c + 32) else c)"

definition str_lower :: "string \<Rightarrow> string" where
  "str_lower s = map lower_char s"

fun contains :: "string \<Rightarrow> string \<Rightarrow> bool" where
  "contains [] p = (p = [])"
| "contains (c # cs) p = (take (length p) (c # cs) = p \<or> contains cs p)"

text \<open>
  The patterns of the source use literals, character classes, concatenation, the
  non-capturing alternation \<^verbatim>\<open>(?:a|b)\<close>, the greedy repetitions \<^verbatim>\<open>?\<close>, \<^verbatim>\<open>*\<close>, \<^verbatim>\<open>+\<close>,
  \<^verbatim>\<open>{m}\<close>, \<^verbatim>\<open>{m,n}\<close>, \<^verbatim>\<open>{m,}\<close> and the word boundary \<^verbatim>\<open>\b\<close>.
\<close>

datatype regex =
    Eps
  | Chr "char \<Rightarrow> bool"
  | Cat regex regex
  | Alt regex regex
  | Rep nat "nat option" regex
  | WordB

text \<open>
  A position is the character before the cursor (none at the start of the text) and
  the text still to be read. \<open>ms r p\<close> lists the positions at which a match of \<open>r\<close>
  that starts at \<open>p\<close> can end, in the order in which a backtracking matcher tries
  them: the left alternative first, one more round of a repetition before stopping.
  A repetition stops after at most as many rounds as characters are left, and takes no
  round that reads nothing; every repeated pattern of the source reads at least one
  character per round.
\<close>

type_synonym pos = "char option \<times> string"

primrec reps :: "(pos \<Rightarrow> pos list) \<Rightarrow> nat \<Rightarrow> nat \<Rightarrow> nat option \<Rightarrow> pos \<Rightarrow> pos list" where
  "reps f 0 lo hi p = (if lo = 0 then [p] else [])"
| "reps f (Suc k) lo hi p =
     (if hi = Some 0 then [p]
      else concat (map (reps f k (lo - 1) (map_option (\<lambda>n. n - 1) hi))
                       (filter (\<lambda>q. length (snd q) < length (snd p)) (f p)))
           @ (if lo = 0 then [p] else []))"

definition is_word :: "char option \<Rightarrow> bool" where
  "is_word x = (case x of None \<Rightarrow> False | Some c \<Rightarrow> word c)"

definition next_char :: "string \<Rightarrow> char option" where
  "next_char s = (case s of [] \<Rightarrow> None | c # _ \<Rightarrow> Some c)"

primrec ms :: "regex \<Rightarrow> pos \<Rightarrow> pos list" where
  "ms Eps p = [p]"
| "ms (Chr f) p = (case snd p of [] \<Rightarrow> [] | c # cs \<Rightarrow> if f c then [(Some c, cs)] else [])"
| "ms (Cat r1 r2) p = concat (map (ms r2) (ms r1 p))"
| "ms (Alt r1 r2) p = ms r1 p @ ms r2 p"
| "ms (Rep lo hi r) p = reps (ms r) (length (snd p)) lo hi p"
| "ms WordB p = (if is_word (fst p) \<noteq> is_word (next_char (snd p)) then [p] else [])"

text \<open>
  \<^verbatim>\<open>re.findall\<close> for a pattern without capturing groups: the matched substrings, from
  left to right, each search starting where the previous match ended. No pattern of
  the source matches the empty string; the model records an empty match and moves on
  by one character.
\<close>

fun findall :: "regex \<Rightarrow> char option \<Rightarrow> string \<Rightarrow> string list" where
  "findall r pv [] = (case ms r (pv, []) of [] \<Rightarrow> [] | q # _ \<Rightarrow> [''''])"
| "findall r pv (c # cs) =
     (case ms r (pv, c # cs) of
        [] \<Rightarrow> findall r (Some c) cs
      | q # _ \<Rightarrow>
          if length (snd q) < length (c # cs)
          then take (length (c # cs) - length (snd q)) (c # cs) # findall r (fst q) (snd q)
          else '''' # findall r (Some c) cs)"

definition re_findall :: "regex \<Rightarrow> string \<Rightarrow> string list" where
  "re_findall r text = findall r None text"

subsection \<open>Pattern notation\<close>

definition lit :: "string \<Rightarrow> regex" where
  "lit s = foldr (\<lambda>c r. Cat (Chr (\<lambda>x. x = c)) r) s Eps"

definition ilit :: "string \<Rightarrow> regex" where
  "ilit s = foldr (\<lambda>c r. Cat (Chr (\<lambda>x. lower_char x = lower_char c)) r) s Eps"

definition cats :: "regex list \<Rightarrow> regex" where
  "cats rs = foldr Cat rs Eps"

fun alts :: "regex list \<Rightarrow> regex" where
  "alts [] = Chr (\<lambda>_. False)"
| "alts [r] = r"
| "alts (r # rs) = Alt r (alts rs)"

definition opt :: "regex \<Rightarrow> regex" where
  "opt r = Rep 0 (Some 1) r"

definition star :: "regex \<Rightarrow> regex" where
  "star r = Rep 0 None r"

definition plus :: "regex \<Rightarrow> regex" where
  "plus r = Rep 1 None r"

definition times :: "nat \<Rightarrow> regex \<Rightarrow> regex" where
  "times n r = Rep n (Some n) r"

section \<open>The extractors\<close>

text \<open>
  \<^verbatim>\<open>list(set(xs))\<close> keeps one copy of each element, in an order that Python does not
  specify; the model keeps the order of \<^const>\<open>remdups\<close>. The statements below speak of
  membership, length and distinctness only.
\<close>

definition list_set :: "string list \<Rightarrow> string list" where
  "list_set xs = remdups xs"

text \<open>\<^verbatim>\<open>\b[A-Za-z0-9._%+-]+@[A-Za-z0-9.-]+\.[A-Z|a-z]{2,}\b\<close>\<close>

definition email_pattern :: regex where
  "email_pattern = cats
     [WordB, plus (Chr (\<lambda>c. alnum c \<or> one_of ''._%+-'' c)), lit ''@'',
      plus (Chr (\<lambda>c. alnum c \<or> one_of ''.-'' c)), lit ''.'',
      Rep 2 None (Chr (\<lambda>c. alpha c \<or> c = CHR ''|'')), WordB]"

definition extract_emails :: "string \<Rightarrow> string list" where
  "extract_emails text = list_set (re_findall email_pattern text)"

text \<open>
  \<^verbatim>\<open>\+?\d{1,3}[-.\s]?\(?\d{3}\)?[-.\s]?\d{3}[-.\s]?\d{4}\<close>,
  \<^verbatim>\<open>\(?\d{3}\)?[-.\s]?\d{3}[-.\s]?\d{4}\<close> and
  \<^verbatim>\<open>\d{4}[-.\s]?\d{3}[-.\s]?\d{3}\<close>
\<close>

definition sep :: regex where
  "sep = Chr (\<lambda>c. one_of ''-.'' c \<or> space c)"

definition phone_patterns :: "regex list" where
  "phone_patterns =
     [cats [opt (lit ''+''), Rep 1 (Some 3) (Chr digit), opt sep, opt (lit ''(''),
            times 3 (Chr digit), opt (lit '')''), opt sep, times 3 (Chr digit), opt sep,
            times 4 (Chr digit)],
      cats [opt (lit ''(''), times 3 (Chr digit), opt (lit '')''), opt sep,
            times 3 (Chr digit), opt sep, times 4 (Chr digit)],
      cats [times 4 (Chr digit), opt sep, times 3 (Chr digit), opt sep, times 3 (Chr digit)]]"

definition extract_phone_numbers :: "string \<Rightarrow> string list" where
  "extract_phone_numbers text = list_set (concat (map (\<lambda>p. re_findall p text) phone_patterns))"

text \<open>
  The social patterns, in the order of the dictionary; the dots of \<^verbatim>\<open>twitter.com/\<close>
  and the others are unescaped in the source and match any character but a newline.
  \<^verbatim>\<open>(?:@|twitter.com/)\w+\<close>, \<^verbatim>\<open>(?:facebook.com/|fb.com/)\w+\<close>,
  \<^verbatim>\<open>(?:@|instagram.com/)\w+\<close>, \<^verbatim>\<open>linkedin.com/(?:in|company)/[\w-]+\<close>,
  \<^verbatim>\<open>github.com/\w+\<close>
\<close>

definition dot_com :: "string \<Rightarrow> regex" where
  "dot_com name = cats [lit name, Chr any_char, lit ''com/'']"

definition social_patterns :: "(string \<times> regex) list" where
  "social_patterns =
     [(''twitter'', Cat (alts [lit ''@'', dot_com ''twitter'']) (plus (Chr word))),
      (''facebook'', Cat (alts [dot_com ''facebook'', dot_com ''fb'']) (plus (Chr word))),
      (''instagram'', Cat (alts [lit ''@'', dot_com ''instagram'']) (plus (Chr word))),
      (''linkedin'', cats [dot_com ''linkedin'', alts [lit ''in'', lit ''company''], lit ''/'',
                           plus (Chr (\<lambda>c. word c \<or> c = CHR ''-''))]),
      (''github'', Cat (dot_com ''github'') (plus (Chr word)))]"

definition extract_social_media :: "string \<Rightarrow> string list \<Rightarrow> string list" where
  "extract_social_media text hrefs =
     list_set (concat (map (\<lambda>(platform, pattern). re_findall pattern text) social_patterns)
               @ filter (\<lambda>href. \<exists>(platform, pattern) \<in> set social_patterns.
                                   contains (str_lower href) platform) hrefs)"

text \<open>
  \<^verbatim>\<open>\d{4}-\d{2}-\d{2}\<close>, \<^verbatim>\<open>\d{2}/\d{2}/\d{4}\<close> and
  \<^verbatim>\<open>\d{1,2}\s(?:Jan|Feb|Mar|Apr|May|Jun|Jul|Aug|Sep|Oct|Nov|Dec)[a-z]*\s\d{4}\<close>
\<close>

definition date_patterns :: "regex list" where
  "date_patterns =
     [cats [times 4 (Chr digit), lit ''-'', times 2 (Chr digit), lit ''-'', times 2 (Chr digit)],
      cats [times 2 (Chr digit), lit ''/'', times 2 (Chr digit), lit ''/'', times 4 (Chr digit)],
      cats [Rep 1 (Some 2) (Chr digit), Chr space,
            alts (map lit [''Jan'', ''Feb'', ''Mar'', ''Apr'', ''May'', ''Jun'', ''Jul'', ''Aug'',
                           ''Sep'', ''Oct'', ''Nov'', ''Dec'']),
            star (Chr lower), Chr space, times 4 (Chr digit)]]"

definition extract_dates :: "string \<Rightarrow> string list" where
  "extract_dates text = list_set (concat (map (\<lambda>p. re_findall p text) date_patterns))"

text \<open>
  \<^verbatim>\<open>\d+\s+[A-Za-z0-9\s,]+(?:Street|St|Avenue|Ave|Road|Rd|Boulevard|Blvd|Lane|Ln|Drive|Dr)\s*,?\s*[A-Za-z\s]+,\s*[A-Z]{2}\s*\d{5}\<close>
  under \<^verbatim>\<open>re.IGNORECASE\<close>: the literals and \<^verbatim>\<open>[A-Z]\<close> match both cases.
\<close>

definition address_pattern :: regex where
  "address_pattern = cats
     [plus (Chr digit), plus (Chr space), plus (Chr (\<lambda>c. alnum c \<or> space c \<or> c = CHR '','')),
      alts (map ilit [''Street'', ''St'', ''Avenue'', ''Ave'', ''Road'', ''Rd'', ''Boulevard'',
                      ''Blvd'', ''Lane'', ''Ln'', ''Drive'', ''Dr'']),
      star (Chr space), opt (lit '',''), star (Chr space), plus (Chr (\<lambda>c. alpha c \<or> space c)),
      lit '','', star (Chr space), times 2 (Chr alpha), star (Chr space), times 5 (Chr digit)]"

definition extract_addresses :: "string \<Rightarrow> string list" where
  "extract_addresses text = list_set (re_findall address_pattern text)"

text \<open>
  \<^verbatim>\<open>(?:USD|\$|E|L)\s*\d+(?:,\d{3})*(?:\.\d{2})?\<close>, where \<^verbatim>\<open>E\<close> is the euro sign
  (code point 8364, which no character of the model has) and \<^verbatim>\<open>L\<close> the pound sign
  (code point 163).
\<close>

definition price_pattern :: regex where
  "price_pattern = cats
     [alts [lit ''USD'', lit ''$'', Chr (\<lambda>c. ord c = 8364), Chr (\<lambda>c. ord c = 163)],
      star (Chr space), plus (Chr digit), star (cats [lit '','', times 3 (Chr digit)]),
      opt (cats [lit ''.'', times 2 (Chr digit)])]"

definition extract_prices :: "string \<Rightarrow> string list" where
  "extract_prices text = list_set (re_findall price_pattern text)"

section \<open>The crawler\<close>

text \<open>
  \<^verbatim>\<open>WebScraper.__init__\<close> stores three settings, which no method assigns again, and
  creates the visited set and the seven result lists.
\<close>

record config =
  max_depth :: int
  max_pages :: int
  timeout :: int

record results =
  emails :: "string list"
  phone_numbers :: "string list"
  social_media :: "string list"
  urls :: "string list"
  dates :: "string list"
  addresses :: "string list"
  prices :: "string list"

datatype error = Timeout | ConnectionError | HTTPError int | ValueError | OSError

datatype log_entry =
    StartingScrape string
  | ErrorScraping string error
  | ResultsSaved string

text \<open>
  What a successful \<^verbatim>\<open>requests.get\<close>, \<^verbatim>\<open>raise_for_status\<close> and \<^verbatim>\<open>BeautifulSoup\<close> parse
  hand to the scraper: \<^verbatim>\<open>soup.get_text()\<close> and the \<^verbatim>\<open>href\<close> of every
  \<^verbatim>\<open>soup.find_all('a', href=True)\<close>, in document order.
\<close>

record page =
  page_text :: string
  hrefs :: "string list"

text \<open>
  The library functions and the network are parameters. \<open>urlparse\<close> gives the scheme
  and the netloc of a URL, \<open>urljoin\<close> resolves a link against a base, both may raise.
  \<open>http_get n url t\<close> is the outcome of the request for \<open>url\<close> with timeout \<open>t\<close>
  when \<open>n\<close> requests were issued before it. \<open>open_w file\<close> is the error, if any, of
  creating the parent directory and opening the file for writing.
\<close>

record env =
  urlparse :: "string \<Rightarrow> error + string \<times> string"
  urljoin :: "string \<Rightarrow> string \<Rightarrow> error + string"
  http_get :: "nat \<Rightarrow> string \<Rightarrow> int \<Rightarrow> error + page"
  open_w :: "string \<Rightarrow> error option"

text \<open>
  The state: the two mutable fields of the instance, and what the instance did to the
  outside, that is the requests it issued, the records it logged and the files it
  wrote, each in order. A Python set is finite, and so is the visited set of every
  state that a crawl of a new instance reaches; \<^verbatim>\<open>len\<close> of it is \<^const>\<open>card\<close>.
\<close>

record state =
  visited_urls :: "string set"
  results :: results
  requests :: "string list"
  log :: "log_entry list"
  files :: "(string \<times> results) list"

definition empty_results :: results where
  "empty_results = \<lparr>emails = [], phone_numbers = [], social_media = [], urls = [],
     dates = [], addresses = [], prices = []\<rparr>"

definition init :: state where
  "init = \<lparr>visited_urls = {}, results = empty_results, requests = [], log = [], files = []\<rparr>"

definition is_valid_url :: "env \<Rightarrow> string \<Rightarrow> bool" where
  "is_valid_url e url =
     (case urlparse e url of
        Inl err \<Rightarrow> False
      | Inr (scheme, netloc) \<Rightarrow> scheme \<in> set [''http'', ''https''] \<and> netloc \<noteq> [])"

definition extract_into :: "results \<Rightarrow> page \<Rightarrow> results" where
  "extract_into r p = r
     \<lparr>emails := emails r @ extract_emails (page_text p),
      phone_numbers := phone_numbers r @ extract_phone_numbers (page_text p),
      social_media := social_media r @ extract_social_media (page_text p) (hrefs p),
      dates := dates r @ extract_dates (page_text p),
      addresses := addresses r @ extract_addresses (page_text p),
      prices := prices r @ extract_prices (page_text p)\<rparr>"

definition remove_duplicates :: "results \<Rightarrow> results" where
  "remove_duplicates r =
     \<lparr>emails = list_set (emails r), phone_numbers = list_set (phone_numbers r),
      social_media = list_set (social_media r), urls = list_set (urls r),
      dates = list_set (dates r), addresses = list_set (addresses r),
      prices = list_set (prices r)\<rparr>"

definition append_url :: "string \<Rightarrow> state \<Rightarrow> state" where
  "append_url u s = s\<lparr>results := (results s)\<lparr>urls := urls (results s) @ [u]\<rparr>\<rparr>"

definition log_error :: "string \<Rightarrow> error \<Rightarrow> state \<Rightarrow> state" where
  "log_error url err s = s\<lparr>log := log s @ [ErrorScraping url err]\<rparr>"

definition visit :: "string \<Rightarrow> state \<Rightarrow> state" where
  "visit url s = s\<lparr>visited_urls := insert url (visited_urls s), requests := requests s @ [url]\<rparr>"

text \<open>
  \<open>scrape_page\<close> is the method of that name; \<open>follow_links\<close> is its \<^verbatim>\<open>for link in links\<close>
  loop. An exception raised inside the \<^verbatim>\<open>try\<close> block (by the request, or by
  \<^verbatim>\<open>urljoin\<close> in the loop) ends the page's processing in the \<^verbatim>\<open>except\<close> clause, which
  logs it. The recursion is as deep as \<open>max_depth\<close> at most; the interpreter's limit on
  the depth of recursion is not modelled.
\<close>

function scrape_page :: "env \<Rightarrow> config \<Rightarrow> string \<Rightarrow> int \<Rightarrow> state \<Rightarrow> state"
  and follow_links :: "env \<Rightarrow> config \<Rightarrow> string \<Rightarrow> int \<Rightarrow> string list \<Rightarrow> state \<Rightarrow> state"
where
  "scrape_page e c url depth s =
     (if \<not> is_valid_url e url \<or> depth \<ge> max_depth c \<or> url \<in> visited_urls s then s
      else case http_get e (length (requests s)) url (timeout c) of
             Inl err \<Rightarrow> log_error url err (visit url s)
           | Inr p \<Rightarrow>
               if depth < max_depth c \<and> int (card (insert url (visited_urls s))) < max_pages c
               then follow_links e c url depth (hrefs p)
                      ((visit url s)\<lparr>results := remove_duplicates (extract_into (results s) p)\<rparr>)
               else (visit url s)\<lparr>results := remove_duplicates (extract_into (results s) p)\<rparr>)"
| "follow_links e c url depth [] s = s"
| "follow_links e c url depth (href # rest) s =
     (case urljoin e url href of
        Inl err \<Rightarrow> log_error url err s
      | Inr next_url \<Rightarrow>
          if is_valid_url e next_url
          then follow_links e c url depth rest
                 (scrape_page e c next_url (depth + 1) (append_url next_url s))
          else follow_links e c url depth rest s)"
  by pat_completeness auto
termination
  by (relation "measures
        [\<lambda>x. case x of
               Inl (e, c, url, depth, s) \<Rightarrow> 2 * nat (max_depth c - depth)
             | Inr (e, c, url, depth, links, s) \<Rightarrow>
                 (if depth < max_depth c then 2 * nat (max_depth c - depth) - 1 else 1),
         \<lambda>x. case x of
               Inl (e, c, url, depth, s) \<Rightarrow> 0
             | Inr (e, c, url, depth, links, s) \<Rightarrow> length links]")
     auto

declare scrape_page.simps [simp del]

text \<open>\<open>save_results\<close> and \<open>scrape\<close>; an error of the former leaves \<open>scrape\<close> as it is raised.\<close>

definition save_results :: "env \<Rightarrow> string \<Rightarrow> state \<Rightarrow> (error + unit) \<times> state" where
  "save_results e output_file s =
     (case open_w e output_file of
        Some err \<Rightarrow> (Inl err, s)
      | None \<Rightarrow> (Inr (), s\<lparr>files := files s @ [(output_file, results s)],
                             log := log s @ [ResultsSaved output_file]\<rparr>))"

definition scrape :: "env \<Rightarrow> config \<Rightarrow> string \<Rightarrow> string option \<Rightarrow> state \<Rightarrow> (error + results) \<times> state" where
  "scrape e c start_url output_file s =
     (let s1 = scrape_page e c start_url 0 (s\<lparr>log := log s @ [StartingScrape start_url]\<rparr>)
      in case output_file of
           None \<Rightarrow> (Inr (results s1), s1)
         | Some file \<Rightarrow>
             if file = [] then (Inr (results s1), s1)
             else case save_results e file s1 of
                    (Inl err, s2) \<Rightarrow> (Inl err, s2)
                  | (Inr u, s2) \<Rightarrow> (Inr (results s2), s2))"

section \<open>Relations between states, and a sample site\<close>

text \<open>
  \<open>grows s s'\<close>: the requests of \<open>s'\<close> are those of \<open>s\<close> followed by new ones, which
  are pairwise different, were not visited in \<open>s\<close> and are exactly what the visited set
  gained. \<open>covers r r'\<close>: every value of a category of \<open>r\<close> is in that category of \<open>r'\<close>.
\<close>

definition grows :: "state \<Rightarrow> state \<Rightarrow> bool" where
  "grows s s' \<longleftrightarrow>
     (\<exists>new. requests s' = requests s @ new \<and> distinct new \<and> set new \<inter> visited_urls s = {}
            \<and> visited_urls s' = visited_urls s \<union> set new)"

definition covers :: "results \<Rightarrow> results \<Rightarrow> bool" where
  "covers r r' \<longleftrightarrow>
     set (emails r) \<subseteq> set (emails r') \<and> set (phone_numbers r) \<subseteq> set (phone_numbers r')
     \<and> set (social_media r) \<subseteq> set (social_media r') \<and> set (urls r) \<subseteq> set (urls r')
     \<and> set (dates r) \<subseteq> set (dates r') \<and> set (addresses r) \<subseteq> set (addresses r')
     \<and> set (prices r) \<subseteq> set (prices r')"

text \<open>
  For the matcher: \<open>chars r\<close> are the characters that a match of \<open>r\<close> can read, and
  \<open>reads C p q\<close> says that \<open>q\<close> is reached from \<open>p\<close> by reading characters of \<open>C\<close> only.
\<close>

primrec chars :: "regex \<Rightarrow> char \<Rightarrow> bool" where
  "chars Eps c = False"
| "chars (Chr f) c = f c"
| "chars (Cat r1 r2) c = (chars r1 c \<or> chars r2 c)"
| "chars (Alt r1 r2) c = (chars r1 c \<or> chars r2 c)"
| "chars (Rep lo hi r) c = chars r c"
| "chars WordB c = False"

definition reads :: "(char \<Rightarrow> bool) \<Rightarrow> pos \<Rightarrow> pos \<Rightarrow> bool" where
  "reads C p q \<longleftrightarrow>
     (\<exists>k \<le> length (snd p). snd q = drop k (snd p) \<and> (\<forall>c \<in> set (take k (snd p)). C c))"

text \<open>
  A small environment for the examples: URLs of the shape \<^verbatim>\<open>scheme://host/path\<close>, links
  that are absolute already, a site given as a table from URL to page, every other URL
  answering 404, and a file system that takes every file.
\<close>

definition sample_urlparse :: "string \<Rightarrow> error + string \<times> string" where
  "sample_urlparse url =
     (let scheme = takeWhile (\<lambda>c. c \<noteq> CHR '':'') url;
          rest = dropWhile (\<lambda>c. c \<noteq> CHR '':'') url
      in if take 3 rest = ''://''
         then Inr (scheme, takeWhile (\<lambda>c. c \<noteq> CHR ''/'') (drop 3 rest))
         else Inr ([], []))"

definition sample_env :: "(string \<times> page) list \<Rightarrow> env" where
  "sample_env site =
     \<lparr>urlparse = sample_urlparse,
      urljoin = (\<lambda>base href. Inr href),
      http_get = (\<lambda>n url t. case map_of site url of None \<Rightarrow> Inl (HTTPError 404) | Some p \<Rightarrow> Inr p),
      open_w = (\<lambda>file. None)\<rparr>"

definition offline :: env where
  "offline = (sample_env [])\<lparr>http_get := (\<lambda>n url t. Inl Timeout)\<rparr>"

definition link_page :: "string list \<Rightarrow> page" where
  "link_page links = \<lparr>page_text = [], hrefs = links\<rparr>"

definition cfg :: "int \<Rightarrow> int \<Rightarrow> config" where
  "cfg d p = \<lparr>max_depth = d, max_pages = p, timeout = 30\<rparr>"

definition site3 :: "(string \<times> page) list" where
  "site3 =
     [(''http://a/'', link_page [''http://a/1'', ''http://a/2'', ''http://a/3'']),
      (''http://a/1'', link_page []), (''http://a/2'', link_page []),
      (''http://a/3'', link_page [])]"

definition site10 :: "(string \<times> page) list" where
  "site10 =
     [(''http://a/'', link_page [''http://a/0'', ''http://a/1'', ''http://a/2'', ''http://a/3'',
         ''http://a/4'', ''http://a/5'', ''http://a/6'', ''http://a/7'', ''http://a/8'',
         ''http://a/9''])]"

definition site_twice :: "(string \<times> page) list" where
  "site_twice = [(''http://a/'', link_page [''http://a/1'', ''http://a/1''])]"

definition contact_text :: string where
  "contact_text = ''Contact: a@b.com or call (555) 123-4567''"

definition site_contact :: "(string \<times> page) list" where
  "site_contact =
     [(''http://a/'', \<lparr>page_text = ''Our office. '' @ contact_text @ '' on weekdays.'',
                      hrefs = [''http://a/about'']\<rparr>),
      (''http://a/about'', link_page [])]"

section \<open>How the states of a crawl are related\<close>

lemmas run = scrape_def scrape_page.simps sample_env_def is_valid_url_def sample_urlparse_def
  init_def visit_def log_error_def append_url_def link_page_def empty_results_def
  remove_duplicates_def extract_into_def list_set_def Let_def save_results_def cfg_def

lemma grows_refl: "grows s s"
  by (simp add: grows_def)

lemma grows_trans: "grows s t \<Longrightarrow> grows t u \<Longrightarrow> grows s u"
  unfolding grows_def
proof -
  assume "\<exists>new. requests t = requests s @ new \<and> distinct new \<and> set new \<inter> visited_urls s = {} \<and> visited_urls t = visited_urls s \<union> set new"
  then obtain n1 where n1: "requests t = requests s @ n1" "distinct n1" "set n1 \<inter> visited_urls s = {}" "visited_urls t = visited_urls s \<union> set n1" by blast
  assume "\<exists>new. requests u = requests t @ new \<and> distinct new \<and> set new \<inter> visited_urls t = {} \<and> visited_urls u = visited_urls t \<union> set new"
  then obtain n2 where n2: "requests u = requests t @ n2" "distinct n2" "set n2 \<inter> visited_urls t = {}" "visited_urls u = visited_urls t \<union> set n2" by blast
  have "requests u = requests s @ (n1 @ n2)" using n1 n2 by simp
  moreover have "distinct (n1 @ n2)" using n1 n2 by auto
  moreover have "set (n1 @ n2) \<inter> visited_urls s = {}" using n1 n2 by auto
  moreover have "visited_urls u = visited_urls s \<union> set (n1 @ n2)" using n1 n2 by auto
  ultimately show "\<exists>new. requests u = requests s @ new \<and> distinct new \<and> set new \<inter> visited_urls s = {} \<and> visited_urls u = visited_urls s \<union> set new" by blast
qed

lemma grows_visit: "url \<notin> visited_urls s \<Longrightarrow> grows s (visit url s)"
  unfolding grows_def visit_def by (rule exI [of _ "[url]"]) simp

lemma scrape_grows:
  "grows s (scrape_page e c url depth s)"
  "grows s (follow_links e c url depth links s)"
proof (induction e c url depth s and e c url depth links s rule: scrape_page_follow_links.induct)
  case (1 e c url depth s)
  show ?case
  proof (cases "\<not> is_valid_url e url \<or> depth \<ge> max_depth c \<or> url \<in> visited_urls s")
    case True
    then show ?thesis by (simp add: scrape_page.simps grows_refl)
  next
    case False
    then have nv: "url \<notin> visited_urls s" by simp
    show ?thesis
    proof (cases "http_get e (length (requests s)) url (timeout c)")
      case (Inl err)
      have "grows s (log_error url err (visit url s))"
        using grows_visit [OF nv] by (simp add: grows_def log_error_def)
      with False Inl show ?thesis by (simp add: scrape_page.simps)
    next
      case (Inr p)
      let ?t = "(visit url s)\<lparr>results := remove_duplicates (extract_into (results s) p)\<rparr>"
      have st: "grows s ?t" using grows_visit [OF nv] by (simp add: grows_def)
      show ?thesis
      proof (cases "depth < max_depth c \<and> int (card (insert url (visited_urls s))) < max_pages c")
        case True
        have "grows ?t (follow_links e c url depth (hrefs p) ?t)"
          using "1.IH" [OF False Inr True] .
        with st have "grows s (follow_links e c url depth (hrefs p) ?t)" by (rule grows_trans)
        with False Inr True show ?thesis by (simp add: scrape_page.simps)
      next
        case F2: False
        with False Inr st show ?thesis by (simp add: scrape_page.simps)
      qed
    qed
  qed
next
  case (2 e c url depth s)
  show ?case by (simp add: grows_refl)
next
  case (3 e c url depth href rest s)
  show ?case
  proof (cases "urljoin e url href")
    case (Inl err)
    then show ?thesis by (simp add: grows_def log_error_def)
  next
    case (Inr next_url)
    show ?thesis
    proof (cases "is_valid_url e next_url")
      case True
      let ?a = "append_url next_url s"
      let ?b = "scrape_page e c next_url (depth + 1) ?a"
      have "grows ?a ?b" using "3.IH"(1) [OF Inr True] .
      then have "grows s ?b" by (simp add: grows_def append_url_def)
      moreover have "grows ?b (follow_links e c url depth rest ?b)" using "3.IH"(2) [OF Inr True] .
      ultimately have "grows s (follow_links e c url depth rest ?b)" by (rule grows_trans)
      with Inr True show ?thesis by simp
    next
      case False
      with Inr "3.IH"(3) [OF Inr False] show ?thesis by simp
    qed
  qed
qed


lemma covers_refl: "covers r r"
  by (simp add: covers_def)

lemma covers_trans: "covers r1 r2 \<Longrightarrow> covers r2 r3 \<Longrightarrow> covers r1 r3"
  unfolding covers_def by blast

lemma covers_extract: "covers r (remove_duplicates (extract_into r p))"
  by (simp add: covers_def remove_duplicates_def extract_into_def list_set_def)

lemma covers_append_url: "covers (results s) (results (append_url u s))"
  by (auto simp add: covers_def append_url_def)

lemma scrape_covers:
  "covers (results s) (results (scrape_page e c url depth s))"
  "covers (results s) (results (follow_links e c url depth links s))"
proof (induction e c url depth s and e c url depth links s rule: scrape_page_follow_links.induct)
  case (1 e c url depth s)
  show ?case
  proof (cases "\<not> is_valid_url e url \<or> depth \<ge> max_depth c \<or> url \<in> visited_urls s")
    case True
    then show ?thesis by (simp add: scrape_page.simps covers_refl)
  next
    case False
    show ?thesis
    proof (cases "http_get e (length (requests s)) url (timeout c)")
      case (Inl err)
      with False show ?thesis
        by (simp add: scrape_page.simps log_error_def visit_def covers_refl)
    next
      case (Inr p)
      let ?t = "(visit url s)\<lparr>results := remove_duplicates (extract_into (results s) p)\<rparr>"
      have st: "covers (results s) (results ?t)" by (simp add: covers_extract)
      show ?thesis
      proof (cases "depth < max_depth c \<and> int (card (insert url (visited_urls s))) < max_pages c")
        case True
        have "covers (results ?t) (results (follow_links e c url depth (hrefs p) ?t))"
          using "1.IH" [OF False Inr True] .
        with st have "covers (results s) (results (follow_links e c url depth (hrefs p) ?t))"
          by (rule covers_trans)
        with False Inr True show ?thesis by (simp add: scrape_page.simps)
      next
        case F2: False
        with False Inr st show ?thesis by (simp add: scrape_page.simps)
      qed
    qed
  qed
next
  case (2 e c url depth s)
  show ?case by (simp add: covers_refl)
next
  case (3 e c url depth href rest s)
  show ?case
  proof (cases "urljoin e url href")
    case (Inl err)
    then show ?thesis by (simp add: log_error_def covers_refl)
  next
    case (Inr next_url)
    show ?thesis
    proof (cases "is_valid_url e next_url")
      case True
      let ?a = "append_url next_url s"
      let ?b = "scrape_page e c next_url (depth + 1) ?a"
      have "covers (results ?a) (results ?b)" using "3.IH"(1) [OF Inr True] .
      with covers_append_url have "covers (results s) (results ?b)" by (rule covers_trans)
      moreover have "covers (results ?b) (results (follow_links e c url depth rest ?b))"
        using "3.IH"(2) [OF Inr True] .
      ultimately have "covers (results s) (results (follow_links e c url depth rest ?b))"
        by (rule covers_trans)
      with Inr True show ?thesis by simp
    next
      case False
      with Inr "3.IH"(3) [OF Inr False] show ?thesis by simp
    qed
  qed
qed

lemma covers_urlsD: "covers r r' \<Longrightarrow> u \<in> set (urls r) \<Longrightarrow> u \<in> set (urls r')"
  unfolding covers_def by blast

lemma follow_links_records:
  "(\<forall>x \<in> set pre. \<exists>v. urljoin e url x = Inr v) \<Longrightarrow> urljoin e url h = Inr u \<Longrightarrow> is_valid_url e u
   \<Longrightarrow> u \<in> set (urls (results (follow_links e c url depth (pre @ h # post) s)))"
proof (induction pre arbitrary: s)
  case Nil
  let ?a = "append_url u s"
  let ?b = "scrape_page e c u (depth + 1) ?a"
  have "u \<in> set (urls (results ?a))" by (simp add: append_url_def)
  then have "u \<in> set (urls (results ?b))" using scrape_covers(1) covers_urlsD by blast
  then have "u \<in> set (urls (results (follow_links e c url depth post ?b)))"
    using scrape_covers(2) covers_urlsD by blast
  with Nil show ?case by simp
next
  case (Cons x pre)
  from Cons.prems(1) obtain v where v: "urljoin e url x = Inr v" by auto
  from Cons.prems(1) have rest: "\<forall>x \<in> set pre. \<exists>v. urljoin e url x = Inr v" by simp
  show ?case using v Cons.IH [OF rest Cons.prems(2) Cons.prems(3)] by simp
qed


lemma scrape_requests:
  "requests (snd (scrape e c url out s))
   = requests (scrape_page e c url 0 (s\<lparr>log := log s @ [StartingScrape url]\<rparr>))"
  by (simp add: scrape_def Let_def save_results_def split: option.split sum.split prod.split)

lemma scrape_visited:
  "visited_urls (snd (scrape e c url out s))
   = visited_urls (scrape_page e c url 0 (s\<lparr>log := log s @ [StartingScrape url]\<rparr>))"
  by (simp add: scrape_def Let_def save_results_def split: option.split sum.split prod.split)

lemma scrape_results:
  "results (snd (scrape e c url out s))
   = results (scrape_page e c url 0 (s\<lparr>log := log s @ [StartingScrape url]\<rparr>))"
  by (simp add: scrape_def Let_def save_results_def split: option.split sum.split prod.split)

lemma scrape_returns:
  "fst (scrape e c url out s) = Inr q \<Longrightarrow> q = results (snd (scrape e c url out s))"
  by (auto simp add: scrape_def Let_def save_results_def
      split: option.splits sum.splits prod.splits if_splits)

lemma scrape_no_file:
  "scrape e c url None s
   = (Inr (results (scrape_page e c url 0 (s\<lparr>log := log s @ [StartingScrape url]\<rparr>))),
      scrape_page e c url 0 (s\<lparr>log := log s @ [StartingScrape url]\<rparr>))"
  by (simp add: scrape_def Let_def)

lemma grows_scrape: "grows s (snd (scrape e c url out s))"
proof -
  let ?s0 = "s\<lparr>log := log s @ [StartingScrape url]\<rparr>"
  have "grows ?s0 (scrape_page e c url 0 ?s0)" by (rule scrape_grows(1))
  then show ?thesis by (simp add: grows_def scrape_requests scrape_visited)
qed


section \<open>What a match can read\<close>

lemmas cls = alnum_def alpha_def lower_def upper_def digit_def between_def ord_def one_of_def
  space_def word_def is_word_def next_char_def
lemmas pats = email_pattern_def phone_patterns_def cats_def plus_def lit_def opt_def star_def
  times_def sep_def

lemma reads_refl: "reads C p p"
  unfolding reads_def by (rule exI [of _ 0]) simp

lemma reads_trans: "reads C p q \<Longrightarrow> reads C q r \<Longrightarrow> reads C p r"
proof -
  assume "reads C p q" and "reads C q r"
  then obtain k j where k: "k \<le> length (snd p)" "snd q = drop k (snd p)" "\<forall>c \<in> set (take k (snd p)). C c"
    and j: "j \<le> length (snd q)" "snd r = drop j (snd q)" "\<forall>c \<in> set (take j (snd q)). C c"
    unfolding reads_def by blast
  have 1: "k + j \<le> length (snd p)" using k j by simp
  have 2: "snd r = drop (k + j) (snd p)" using k j by (simp add: add.commute)
  have "take (k + j) (snd p) = take k (snd p) @ take j (drop k (snd p))"
    by (simp add: take_add)
  then have 3: "\<forall>c \<in> set (take (k + j) (snd p)). C c" using k j by auto
  from 1 2 3 show "reads C p r" unfolding reads_def by blast
qed

lemma reads_mono: "reads C p q \<Longrightarrow> (\<And>c. C c \<Longrightarrow> D c) \<Longrightarrow> reads D p q"
  unfolding reads_def by blast

lemma reps_reads:
  assumes f: "\<And>p q. q \<in> set (f p) \<Longrightarrow> reads C p q"
  shows "q \<in> set (reps f n lo hi p) \<Longrightarrow> reads C p q"
proof (induction n arbitrary: lo hi p)
  case 0
  then show ?case by (simp add: reads_refl split: if_splits)
next
  case (Suc n)
  show ?case
  proof (cases "hi = Some 0")
    case True
    with Suc.prems show ?thesis by (simp add: reads_refl)
  next
    case False
    with Suc.prems consider
      (more) p' where "p' \<in> set (f p)" "q \<in> set (reps f n (lo - 1) (map_option (\<lambda>n. n - 1) hi) p')"
      | (stop) "q = p"
      by (auto split: if_splits)
    then show ?thesis
    proof cases
      case more
      from f [OF more(1)] Suc.IH [OF more(2)] show ?thesis by (rule reads_trans)
    next
      case stop
      then show ?thesis by (simp add: reads_refl)
    qed
  qed
qed

lemma ms_reads: "q \<in> set (ms r p) \<Longrightarrow> reads (chars r) p q"
proof (induction r arbitrary: p q)
  case Eps
  then show ?case by (simp add: reads_refl)
next
  case (Chr f)
  obtain pv s where p: "p = (pv, s)" by (cases p)
  show ?case
  proof (cases s)
    case Nil
    with Chr p show ?thesis by simp
  next
    case (Cons c cs)
    with Chr p have "f c" and "q = (Some c, cs)" by (auto split: if_splits)
    with p Cons show ?thesis unfolding reads_def by (intro exI [of _ 1]) simp
  qed
next
  case (Cat r1 r2)
  then obtain m where m: "m \<in> set (ms r1 p)" "q \<in> set (ms r2 m)" by auto
  have "reads (chars (Cat r1 r2)) p m" using Cat.IH(1) [OF m(1)] by (rule reads_mono) simp
  moreover have "reads (chars (Cat r1 r2)) m q" using Cat.IH(2) [OF m(2)] by (rule reads_mono) simp
  ultimately show ?case by (rule reads_trans)
next
  case (Alt r1 r2)
  then consider "q \<in> set (ms r1 p)" | "q \<in> set (ms r2 p)" by auto
  then show ?case
  proof cases
    case 1
    show ?thesis using Alt.IH(1) [OF 1] by (rule reads_mono) simp
  next
    case 2
    show ?thesis using Alt.IH(2) [OF 2] by (rule reads_mono) simp
  qed
next
  case (Rep lo hi r)
  then have "q \<in> set (reps (ms r) (length (snd p)) lo hi p)" by simp
  then have "reads (chars r) p q" using Rep.IH by (rule reps_reads [rotated])
  then show ?case by simp
next
  case WordB
  then show ?case by (simp add: reads_refl split: if_splits)
qed

lemma findall_barrier:
  assumes b: "\<not> chars r b"
  shows "set (findall r (Some b) rest) \<subseteq> set (findall r pv (pre @ b # rest))"
proof (induction "length pre" arbitrary: pre pv rule: less_induct)
  case less
  show ?case
  proof (cases pre)
    case Nil
    show ?thesis
    proof (cases "ms r (pv, b # rest)")
      case Nil': Nil
      with Nil show ?thesis by simp
    next
      case (Cons q qs)
      then have "reads (chars r) (pv, b # rest) q" using ms_reads [of q r "(pv, b # rest)"] by simp
      then obtain k where k: "k \<le> length (b # rest)" "snd q = drop k (b # rest)"
        "\<forall>c \<in> set (take k (b # rest)). chars r c" unfolding reads_def by auto
      have "k = 0" using k(3) b by (cases k) auto
      with k have "snd q = b # rest" by simp
      with Nil Cons show ?thesis by auto
    qed
  next
    case pre: (Cons c cs)
    let ?s = "c # (cs @ b # rest)"
    show ?thesis
    proof (cases "ms r (pv, ?s)")
      case Nil
      with pre less [of cs "Some c"] show ?thesis by simp
    next
      case (Cons q qs)
      then have "reads (chars r) (pv, ?s) q" using ms_reads [of q r "(pv, ?s)"] by simp
      then obtain k where k: "k \<le> length ?s" "snd q = drop k ?s"
        "\<forall>c \<in> set (take k ?s). chars r c" unfolding reads_def by auto
      have kl: "k \<le> length pre"
      proof (rule ccontr)
        assume "\<not> k \<le> length pre"
        then obtain j where j: "k - length pre = Suc j" by (cases "k - length pre") auto
        have "take k (pre @ b # rest) = pre @ b # take j rest" using j by simp
        then have "b \<in> set (take k (pre @ b # rest))" by simp
        with k(3) pre b show False by auto
      qed
      show ?thesis
      proof (cases "length (snd q) < length ?s")
        case True
        then have k0: "0 < k" using k by (cases k) auto
        have "drop k (pre @ b # rest) = drop k pre @ b # rest" using kl by simp
        then have sq: "snd q = drop k pre @ b # rest" using k(2) pre by simp
        have "length (drop k pre) < length pre" using k0 pre by simp
        from less [OF this, of "fst q"] sq pre Cons True show ?thesis by auto
      next
        case False
        with pre Cons less [of cs "Some c"] show ?thesis by auto
      qed
    qed
  qed
qed

lemma reps_done: "reps f n 0 (Some 0) p = [p]"
  by (cases n) simp_all

lemma email_found:
  "''a@b.com''
   \<in> set (findall email_pattern (Some CHR '':'') ('' a@b.com or call (555) 123-4567'' @ post))"
  by (simp add: cls pats)

lemma phone_found:
  "''(555) 123-4567''
   \<in> set (findall (phone_patterns ! 1) (Some CHR ''l'') ('' (555) 123-4567'' @ post))"
  by (simp add: cls pats reps_done)


lemma email_in_context:
  "''a@b.com'' \<in> set (extract_emails (pre @ contact_text @ post))"
proof -
  have t: "pre @ contact_text @ post
           = (pre @ ''Contact'') @ CHR '':'' # ('' a@b.com or call (555) 123-4567'' @ post)"
    by (simp add: contact_text_def)
  have "\<not> chars email_pattern CHR '':''" by (simp add: cls pats)
  from findall_barrier [OF this, of "'' a@b.com or call (555) 123-4567'' @ post" None "pre @ ''Contact''"]
    email_found [of post]
  have "''a@b.com'' \<in> set (findall email_pattern None (pre @ contact_text @ post))"
    unfolding t by blast
  then show ?thesis by (simp add: extract_emails_def list_set_def re_findall_def)
qed

lemma phone_in_context:
  "''(555) 123-4567'' \<in> set (extract_phone_numbers (pre @ contact_text @ post))"
proof -
  have t: "pre @ contact_text @ post
           = (pre @ ''Contact: a@b.com or cal'') @ CHR ''l'' # ('' (555) 123-4567'' @ post)"
    by (simp add: contact_text_def)
  have "\<not> chars (phone_patterns ! 1) CHR ''l''" by (simp add: cls pats)
  from findall_barrier [OF this, of "'' (555) 123-4567'' @ post" None "pre @ ''Contact: a@b.com or cal''"]
    phone_found [of post]
  have "''(555) 123-4567'' \<in> set (findall (phone_patterns ! 1) None (pre @ contact_text @ post))"
    unfolding t by blast
  moreover have "phone_patterns ! 1 \<in> set phone_patterns" by (simp add: phone_patterns_def)
  ultimately show ?thesis
    by (auto simp add: extract_phone_numbers_def list_set_def re_findall_def)
qed

section \<open>The claims\<close>

text \<open>
  C1 (the code departs from it). The claim: during a crawl the visited set never has
  more than \<open>max_pages\<close> URLs, and no request is issued once it has \<open>max_pages\<close>. The
  method compares the size of the visited set with \<open>max_pages\<close> once per page, before
  the loop over the page's links, and not in the guard at its entry. With
  \<open>max_pages = 2\<close> and a seed page with three links the crawl visits and requests four
  URLs.
\<close>

theorem page_budget_exceeded:
  "max_pages (cfg 2 2) = 2
   \<and> card (visited_urls (snd (scrape (sample_env site3) (cfg 2 2) ''http://a/'' None init))) = 4
   \<and> requests (snd (scrape (sample_env site3) (cfg 2 2) ''http://a/'' None init))
       = [''http://a/'', ''http://a/1'', ''http://a/2'', ''http://a/3'']"
  by (simp add: run site3_def)

text \<open>
  C2, as the spec states it, fails: with \<open>max_pages = 1\<close> the seed page of \<open>site10\<close> is
  requested, its ten links resolve to valid URLs, and none of them is recorded in \<open>urls\<close>.
\<close>

theorem links_not_recorded_at_budget:
  "http_get (sample_env site10) 0 ''http://a/'' 30 = Inr (link_page
      [''http://a/0'', ''http://a/1'', ''http://a/2'', ''http://a/3'', ''http://a/4'',
       ''http://a/5'', ''http://a/6'', ''http://a/7'', ''http://a/8'', ''http://a/9''])
   \<and> urljoin (sample_env site10) ''http://a/'' ''http://a/0'' = Inr ''http://a/0''
   \<and> is_valid_url (sample_env site10) ''http://a/0''
   \<and> requests (snd (scrape (sample_env site10) (cfg 2 1) ''http://a/'' None init)) = [''http://a/'']
   \<and> ''http://a/0'' \<notin> set (urls (results (snd (scrape (sample_env site10) (cfg 2 1) ''http://a/'' None init))))"
  by (simp add: run site10_def)

text \<open>
  C2 (amended). Let a page be requested and its request succeed. If the visited set,
  this page included, is smaller than \<open>max_pages\<close>, then every link of the page that
  resolves to a valid URL is in \<open>urls\<close> afterwards, whether it is requested or not, up to
  the first link on which \<^verbatim>\<open>urljoin\<close> raises. Otherwise the page's request is the only
  one and \<open>urls\<close> gains nothing; so with \<open>max_pages = 1\<close> and a seed page with ten links
  there is one request and \<open>urls\<close> stays empty.
\<close>

theorem links_recorded:
  assumes "is_valid_url e url" and "depth < max_depth c" and "url \<notin> visited_urls s"
    and "http_get e (length (requests s)) url (timeout c) = Inr p"
  shows "if int (card (insert url (visited_urls s))) < max_pages c
         then \<forall>pre h post u. hrefs p = pre @ h # post \<and> (\<forall>x \<in> set pre. \<exists>v. urljoin e url x = Inr v)
                   \<and> urljoin e url h = Inr u \<and> is_valid_url e u
                 \<longrightarrow> u \<in> set (urls (results (scrape_page e c url depth s)))
         else requests (scrape_page e c url depth s) = requests s @ [url]
              \<and> set (urls (results (scrape_page e c url depth s))) = set (urls (results s))"
proof (cases "int (card (insert url (visited_urls s))) < max_pages c")
  case True
  let ?t = "(visit url s)\<lparr>results := remove_duplicates (extract_into (results s) p)\<rparr>"
  have eq: "scrape_page e c url depth s = follow_links e c url depth (hrefs p) ?t"
    using assms True by (simp add: scrape_page.simps)
  have "u \<in> set (urls (results (scrape_page e c url depth s)))"
    if "hrefs p = pre @ h # post" and "\<forall>x \<in> set pre. \<exists>v. urljoin e url x = Inr v"
      and "urljoin e url h = Inr u" and "is_valid_url e u" for pre h post u
    using follow_links_records [OF that(2) that(3) that(4), of c depth post ?t] eq that(1)
    by simp
  with True show ?thesis by auto
next
  case False
  with assms show ?thesis
    by (simp add: scrape_page.simps visit_def remove_duplicates_def extract_into_def list_set_def)
qed

theorem links_recorded_witness:
  "is_valid_url (sample_env site10) ''http://a/'' \<and> (0::int) < max_depth (cfg 1 5)
   \<and> ''http://a/'' \<notin> visited_urls init
   \<and> int (card (insert ''http://a/'' (visited_urls init))) < max_pages (cfg 1 5)
   \<and> ''http://a/9'' \<in> set (urls (results (scrape_page (sample_env site10) (cfg 1 5) ''http://a/'' 0 init)))
   \<and> requests (scrape_page (sample_env site10) (cfg 1 5) ''http://a/'' 0 init) = [''http://a/'']
   \<and> \<not> int (card (insert ''http://a/'' (visited_urls init))) < max_pages (cfg 2 1)
   \<and> requests (scrape_page (sample_env site10) (cfg 2 1) ''http://a/'' 0 init) = [''http://a/'']
   \<and> set (urls (results (scrape_page (sample_env site10) (cfg 2 1) ''http://a/'' 0 init))) = {}"
proof -
  let ?e = "sample_env site10"
  let ?p = "link_page [''http://a/0'', ''http://a/1'', ''http://a/2'', ''http://a/3'',
         ''http://a/4'', ''http://a/5'', ''http://a/6'', ''http://a/7'', ''http://a/8'',
         ''http://a/9'']"
  have v: "is_valid_url ?e ''http://a/''"
    by (simp add: is_valid_url_def sample_env_def sample_urlparse_def)
  have v9: "is_valid_url ?e ''http://a/9''"
    by (simp add: is_valid_url_def sample_env_def sample_urlparse_def)
  have n: "''http://a/'' \<notin> visited_urls init" by (simp add: init_def)
  have g: "http_get ?e (length (requests init)) ''http://a/'' (timeout (cfg 1 5)) = Inr ?p"
    by (simp add: sample_env_def site10_def)
  have g': "http_get ?e (length (requests init)) ''http://a/'' (timeout (cfg 2 1)) = Inr ?p"
    by (simp add: sample_env_def site10_def)
  have d: "(0::int) < max_depth (cfg 1 5)" and d': "(0::int) < max_depth (cfg 2 1)"
    by (simp_all add: cfg_def)
  have b: "int (card (insert ''http://a/'' (visited_urls init))) < max_pages (cfg 1 5)"
    and b': "\<not> int (card (insert ''http://a/'' (visited_urls init))) < max_pages (cfg 2 1)"
    by (simp_all add: cfg_def init_def)
  have j: "\<forall>x \<in> set (butlast (hrefs ?p)). \<exists>v. urljoin ?e ''http://a/'' x = Inr v"
    and j9: "urljoin ?e ''http://a/'' ''http://a/9'' = Inr ''http://a/9''"
    by (simp_all add: sample_env_def)
  have h: "hrefs ?p = butlast (hrefs ?p) @ ''http://a/9'' # []" by (simp add: link_page_def)
  from links_recorded [OF v d n g] b h j j9 v9
  have r1: "''http://a/9'' \<in> set (urls (results (scrape_page ?e (cfg 1 5) ''http://a/'' 0 init)))"
    by presburger
  from links_recorded [OF v d' n g'] b'
  have r2: "requests (scrape_page ?e (cfg 2 1) ''http://a/'' 0 init) = requests init @ [''http://a/'']
     \<and> set (urls (results (scrape_page ?e (cfg 2 1) ''http://a/'' 0 init))) = set (urls (results init))"
    by presburger
  have r3: "requests (scrape_page ?e (cfg 1 5) ''http://a/'' 0 init) = [''http://a/'']"
    by (simp add: run site10_def)
  from r2 have r2': "requests (scrape_page ?e (cfg 2 1) ''http://a/'' 0 init) = [''http://a/'']
     \<and> set (urls (results (scrape_page ?e (cfg 2 1) ''http://a/'' 0 init))) = {}"
    by (simp add: init_def empty_results_def)
  from v d n b r1 r3 b' r2' show ?thesis by blast
qed

text \<open>
  C3, as the spec states it, fails: with \<open>max_depth = 0\<close> the guard \<open>depth \<ge> max_depth\<close>
  holds for the seed itself, and a valid seed is not requested.
\<close>

theorem seed_not_fetched_at_depth_zero:
  "is_valid_url (sample_env site3) ''http://a/''
   \<and> max_depth (cfg 0 100) = 0
   \<and> ''http://a/'' \<notin> set (requests (snd (scrape (sample_env site3) (cfg 0 100) ''http://a/'' None init)))"
  by (simp add: run)

text \<open>
  C3 (amended). A crawl with \<open>max_depth = 0\<close> issues no request at all, the seed
  included, and leaves the visited set and every category, \<open>urls\<close> too, as they were
  (empty on a new instance).
\<close>

theorem no_depth_no_fetch:
  assumes "max_depth c = 0"
  shows "requests (snd (scrape e c url out s)) = requests s
    \<and> visited_urls (snd (scrape e c url out s)) = visited_urls s
    \<and> results (snd (scrape e c url out s)) = results s"
  using assms by (simp add: scrape_requests scrape_results scrape_visited scrape_page.simps)

theorem no_depth_no_fetch_witness:
  "max_depth (cfg 0 100) = 0
   \<and> requests (snd (scrape (sample_env site3) (cfg 0 100) ''http://a/'' None init)) = []
   \<and> visited_urls (snd (scrape (sample_env site3) (cfg 0 100) ''http://a/'' None init)) = {}
   \<and> results (snd (scrape (sample_env site3) (cfg 0 100) ''http://a/'' None init)) = empty_results"
proof -
  have h: "max_depth (cfg 0 100) = 0" by (simp add: cfg_def)
  from no_depth_no_fetch [OF h, of "sample_env site3" "''http://a/''" None init] h
  show ?thesis by (simp add: init_def)
qed

text \<open>
  C4. No URL is requested twice, and the visited set has as many URLs as requests were
  issued. This holds after every call of \<open>scrape\<close> on a state in which it holds, and
  it holds in the state of a new instance.
\<close>

theorem fetched_once:
  assumes "distinct (requests s)" and "set (requests s) = visited_urls s"
  shows "distinct (requests (snd (scrape e c url out s)))
    \<and> set (requests (snd (scrape e c url out s))) = visited_urls (snd (scrape e c url out s))
    \<and> card (visited_urls (snd (scrape e c url out s))) = length (requests (snd (scrape e c url out s)))"
proof -
  let ?t = "snd (scrape e c url out s)"
  from grows_scrape [of s e c url out] obtain new where
    n: "requests ?t = requests s @ new" "distinct new" "set new \<inter> visited_urls s = {}"
       "visited_urls ?t = visited_urls s \<union> set new"
    unfolding grows_def by blast
  have d: "distinct (requests ?t)" using n assms by auto
  have e: "set (requests ?t) = visited_urls ?t" using n assms by auto
  from d e have "card (visited_urls ?t) = length (requests ?t)" using distinct_card by metis
  with d e show ?thesis by simp
qed

theorem fetched_once_witness:
  "distinct (requests init) \<and> set (requests init) = visited_urls init
   \<and> distinct (requests (snd (scrape (sample_env site3) (cfg 2 100) ''http://a/'' None init)))
   \<and> card (visited_urls (snd (scrape (sample_env site3) (cfg 2 100) ''http://a/'' None init))) = 4
   \<and> length (requests (snd (scrape (sample_env site3) (cfg 2 100) ''http://a/'' None init))) = 4"
proof -
  have h1: "distinct (requests init)" and h2: "set (requests init) = visited_urls init"
    by (simp_all add: init_def)
  have l: "length (requests (snd (scrape (sample_env site3) (cfg 2 100) ''http://a/'' None init))) = 4"
    by (simp add: run site3_def)
  from fetched_once [OF h1 h2, of "sample_env site3" "cfg 2 100" "''http://a/''" None] h1 h2 l
  show ?thesis by simp
qed

text \<open>
  C5 (the code departs from it). The claim: in the final result no category holds the
  same string twice. The method removes duplicates from all seven lists (\<^verbatim>\<open># Remove
  duplicates\<close>) and appends the links of the page to \<open>urls\<close> after that, so a page that
  links twice to the same URL, the last page to be processed, leaves it twice in \<open>urls\<close>.
\<close>

theorem urls_duplicated:
  "\<not> distinct (urls (results (snd (scrape (sample_env site_twice) (cfg 1 100) ''http://a/'' None init))))
   \<and> count_list (urls (results (snd (scrape (sample_env site_twice) (cfg 1 100) ''http://a/'' None init))))
        ''http://a/1'' = 2"
  by (simp add: run site_twice_def)

text \<open>
  C6. A seed that fails \<open>is_valid_url\<close> is not requested, and the seven categories stay
  empty; unless writing the output file fails, \<open>scrape\<close> returns them as its result and
  not as an error.
\<close>

theorem invalid_seed:
  assumes "\<not> is_valid_url e url"
  shows "requests (snd (scrape e c url out init)) = []
    \<and> visited_urls (snd (scrape e c url out init)) = {}
    \<and> results (snd (scrape e c url out init)) = empty_results
    \<and> ((\<forall>file. out = Some file \<longrightarrow> open_w e file = None)
        \<longrightarrow> fst (scrape e c url out init) = Inr empty_results)"
proof -
  have "scrape_page e c url 0 (init\<lparr>log := log init @ [StartingScrape url]\<rparr>)
        = init\<lparr>log := log init @ [StartingScrape url]\<rparr>"
    using assms by (simp add: scrape_page.simps)
  then show ?thesis
    by (simp add: scrape_requests scrape_results scrape_visited)
       (auto simp add: scrape_def init_def save_results_def Let_def split: option.splits)
qed

theorem invalid_seed_witness:
  "urlparse (sample_env site3) ''ftp://x.com'' = Inr (''ftp'', ''x.com'')
   \<and> \<not> is_valid_url (sample_env site3) ''ftp://x.com''
   \<and> open_w (sample_env site3) ''out.json'' = None
   \<and> requests (snd (scrape (sample_env site3) (cfg 2 100) ''ftp://x.com'' (Some ''out.json'') init)) = []
   \<and> fst (scrape (sample_env site3) (cfg 2 100) ''ftp://x.com'' (Some ''out.json'') init)
       = Inr empty_results"
proof -
  have p: "urlparse (sample_env site3) ''ftp://x.com'' = Inr (''ftp'', ''x.com'')"
    by (simp add: sample_env_def sample_urlparse_def)
  then have h: "\<not> is_valid_url (sample_env site3) ''ftp://x.com''"
    by (simp add: is_valid_url_def)
  have w: "open_w (sample_env site3) ''out.json'' = None" by (simp add: sample_env_def)
  from invalid_seed [OF h, of "cfg 2 100" "Some ''out.json''"] p h w show ?thesis by simp
qed

text \<open>
  C7. A page whose request fails adds nothing to the results, the failure is logged,
  \<open>scrape_page\<close> returns (a state, as for every page: the \<^verbatim>\<open>except\<close> clause catches
  what the request raises), and the loop of the parent page goes on with its next link.
  A crawl whose seed request fails returns the results unchanged, empty on a new
  instance, as its result.
\<close>

theorem failed_fetch:
  assumes "is_valid_url e url" and "depth < max_depth c" and "url \<notin> visited_urls s"
    and "http_get e (length (requests s)) url (timeout c) = Inl err"
  shows "scrape_page e c url depth s = log_error url err (visit url s)
    \<and> results (scrape_page e c url depth s) = results s
    \<and> log (scrape_page e c url depth s) = log s @ [ErrorScraping url err]
    \<and> (urljoin e base href = Inr url \<longrightarrow>
         follow_links e c base (depth - 1) (href # rest) s
         = follow_links e c base (depth - 1) rest (log_error url err (visit url (append_url url s))))
    \<and> (depth = 0 \<longrightarrow>
         scrape e c url None s
         = (Inr (results s), log_error url err (visit url (s\<lparr>log := log s @ [StartingScrape url]\<rparr>))))"
  using assms
  by (simp add: scrape_page.simps scrape_def log_error_def visit_def append_url_def)

theorem failed_fetch_witness:
  "is_valid_url offline ''http://a/'' \<and> (0::int) < max_depth (cfg 2 100)
   \<and> ''http://a/'' \<notin> visited_urls init
   \<and> http_get offline (length (requests init)) ''http://a/'' (timeout (cfg 2 100)) = Inl Timeout
   \<and> scrape offline (cfg 2 100) ''http://a/'' None init
       = (Inr empty_results,
          init\<lparr>visited_urls := {''http://a/''}, requests := [''http://a/''],
               log := [StartingScrape ''http://a/'', ErrorScraping ''http://a/'' Timeout]\<rparr>)
   \<and> is_valid_url (sample_env site3) ''http://b/''
   \<and> urljoin (sample_env site3) ''http://a/'' ''http://b/'' = Inr ''http://b/''
   \<and> (1::int) < max_depth (cfg 2 100)
   \<and> http_get (sample_env site3) (length (requests init)) ''http://b/'' (timeout (cfg 2 100))
       = Inl (HTTPError 404)
   \<and> requests (follow_links (sample_env site3) (cfg 2 100) ''http://a/'' 0
                  [''http://b/'', ''http://a/1''] init) = [''http://b/'', ''http://a/1'']"
proof -
  let ?e = "sample_env site3"
  have v0: "is_valid_url offline ''http://a/''"
    by (simp add: is_valid_url_def offline_def sample_env_def sample_urlparse_def)
  have v: "is_valid_url ?e ''http://b/''"
    by (simp add: is_valid_url_def sample_env_def sample_urlparse_def)
  have d0: "(0::int) < max_depth (cfg 2 100)" and d1: "(1::int) < max_depth (cfg 2 100)"
    by (simp_all add: cfg_def)
  have n0: "''http://a/'' \<notin> visited_urls init" and n: "''http://b/'' \<notin> visited_urls init"
    by (simp_all add: init_def)
  have g0: "http_get offline (length (requests init)) ''http://a/'' (timeout (cfg 2 100)) = Inl Timeout"
    by (simp add: offline_def)
  have g: "http_get ?e (length (requests init)) ''http://b/'' (timeout (cfg 2 100)) = Inl (HTTPError 404)"
    by (simp add: sample_env_def site3_def)
  have j: "urljoin ?e ''http://a/'' ''http://b/'' = Inr ''http://b/''"
    by (simp add: sample_env_def)
  from failed_fetch [OF v0 d0 n0 g0]
  have seed: "scrape offline (cfg 2 100) ''http://a/'' None init
       = (Inr empty_results,
          init\<lparr>visited_urls := {''http://a/''}, requests := [''http://a/''],
               log := [StartingScrape ''http://a/'', ErrorScraping ''http://a/'' Timeout]\<rparr>)"
    by (simp add: init_def log_error_def visit_def)
  from failed_fetch [OF v d1 n g, of "''http://a/''" "''http://b/''" "[''http://a/1'']"] j
  have "follow_links ?e (cfg 2 100) ''http://a/'' 0 [''http://b/'', ''http://a/1''] init
        = follow_links ?e (cfg 2 100) ''http://a/'' 0 [''http://a/1'']
            (log_error ''http://b/'' (HTTPError 404) (visit ''http://b/'' (append_url ''http://b/'' init)))"
    by simp
  then have loop: "requests (follow_links ?e (cfg 2 100) ''http://a/'' 0
                  [''http://b/'', ''http://a/1''] init) = [''http://b/'', ''http://a/1'']"
    by (simp add: run site3_def)
  from v0 d0 n0 g0 seed v j d1 g loop show ?thesis by blast
qed

text \<open>
  C8. A call of \<open>scrape_page\<close> for a URL at a depth that is \<open>max_depth\<close> or more changes
  nothing: no request is issued for it.
\<close>

theorem depth_guard:
  assumes "max_depth c \<le> depth"
  shows "scrape_page e c url depth s = s"
  using assms by (simp add: scrape_page.simps)

theorem depth_guard_witness:
  "max_depth (cfg 2 100) \<le> 2 \<and> is_valid_url (sample_env site3) ''http://a/1''
   \<and> ''http://a/1'' \<notin> visited_urls init
   \<and> scrape_page (sample_env site3) (cfg 2 100) ''http://a/1'' 2 init = init"
proof -
  have h: "max_depth (cfg 2 100) \<le> 2" by (simp add: cfg_def)
  have v: "is_valid_url (sample_env site3) ''http://a/1''"
    by (simp add: is_valid_url_def sample_env_def sample_urlparse_def)
  have n: "''http://a/1'' \<notin> visited_urls init" by (simp add: init_def)
  from depth_guard [OF h, of "sample_env site3" "''http://a/1''" init] h v n show ?thesis by simp
qed

text \<open>
  C9. For every text that contains \<^verbatim>\<open>Contact: a@b.com or call (555) 123-4567\<close>, whatever
  stands before and after it, the e-mail extractor returns \<^verbatim>\<open>a@b.com\<close> and the phone
  extractor returns \<^verbatim>\<open>(555) 123-4567\<close>; and when a page with such a text is requested
  with success, both values are in their categories of the results afterwards.
\<close>

theorem contact_example:
  "''a@b.com'' \<in> set (extract_emails (pre @ contact_text @ post))
   \<and> ''(555) 123-4567'' \<in> set (extract_phone_numbers (pre @ contact_text @ post))
   \<and> (is_valid_url e url \<and> depth < max_depth c \<and> url \<notin> visited_urls s
        \<and> http_get e (length (requests s)) url (timeout c) = Inr p
        \<and> page_text p = pre @ contact_text @ post
      \<longrightarrow> ''a@b.com'' \<in> set (emails (results (scrape_page e c url depth s)))
          \<and> ''(555) 123-4567'' \<in> set (phone_numbers (results (scrape_page e c url depth s))))"
proof -
  have "''a@b.com'' \<in> set (emails (results (scrape_page e c url depth s)))
        \<and> ''(555) 123-4567'' \<in> set (phone_numbers (results (scrape_page e c url depth s)))"
    if g: "is_valid_url e url" "depth < max_depth c" "url \<notin> visited_urls s"
      "http_get e (length (requests s)) url (timeout c) = Inr p"
      and t: "page_text p = pre @ contact_text @ post"
  proof -
    let ?r = "remove_duplicates (extract_into (results s) p)"
    let ?t = "(visit url s)\<lparr>results := ?r\<rparr>"
    have in_r: "''a@b.com'' \<in> set (emails ?r) \<and> ''(555) 123-4567'' \<in> set (phone_numbers ?r)"
      using email_in_context [of pre post] phone_in_context [of pre post] t
      by (simp add: remove_duplicates_def extract_into_def list_set_def)
    have "covers ?r (results (scrape_page e c url depth s))"
    proof (cases "int (card (insert url (visited_urls s))) < max_pages c")
      case True
      with g have "scrape_page e c url depth s = follow_links e c url depth (hrefs p) ?t"
        by (simp add: scrape_page.simps)
      with scrape_covers(2) [of ?t e c url depth "hrefs p"] show ?thesis by simp
    next
      case False
      with g have "scrape_page e c url depth s = ?t" by (simp add: scrape_page.simps)
      then show ?thesis by (simp add: covers_refl)
    qed
    with in_r show ?thesis unfolding covers_def by blast
  qed
  with email_in_context [of pre post] phone_in_context [of pre post] show ?thesis by blast
qed

theorem contact_example_witness:
  "is_valid_url (sample_env site_contact) ''http://a/'' \<and> (0::int) < max_depth (cfg 2 100)
   \<and> ''http://a/'' \<notin> visited_urls init
   \<and> http_get (sample_env site_contact) (length (requests init)) ''http://a/'' (timeout (cfg 2 100))
       = Inr \<lparr>page_text = ''Our office. '' @ contact_text @ '' on weekdays.'',
              hrefs = [''http://a/about'']\<rparr>
   \<and> ''a@b.com'' \<in> set (emails (results (scrape_page (sample_env site_contact) (cfg 2 100) ''http://a/'' 0 init)))
   \<and> ''(555) 123-4567''
       \<in> set (phone_numbers (results (scrape_page (sample_env site_contact) (cfg 2 100) ''http://a/'' 0 init)))"
proof -
  let ?e = "sample_env site_contact"
  let ?p = "\<lparr>page_text = ''Our office. '' @ contact_text @ '' on weekdays.'',
             hrefs = [''http://a/about'']\<rparr>"
  have v: "is_valid_url ?e ''http://a/''"
    by (simp add: is_valid_url_def sample_env_def sample_urlparse_def)
  have d: "(0::int) < max_depth (cfg 2 100)" by (simp add: cfg_def)
  have n: "''http://a/'' \<notin> visited_urls init" by (simp add: init_def)
  have g: "http_get ?e (length (requests init)) ''http://a/'' (timeout (cfg 2 100)) = Inr ?p"
    by (simp add: sample_env_def site_contact_def)
  have t: "page_text ?p = ''Our office. '' @ contact_text @ '' on weekdays.''" by simp
  from contact_example [of "''Our office. ''" "'' on weekdays.''" ?e "''http://a/''" 0 "cfg 2 100" init ?p]
    v d n g t
  show ?thesis by blast
qed

text \<open>
  C10. \<open>scrape\<close> starts from the state that the previous call left. A second call
  issues its requests after those of the first, requests no URL that the first call
  left in the visited set, and returns results that contain every value that the first
  call returned.
\<close>

theorem second_scrape:
  assumes "scrape e1 c u1 o1 s0 = (Inr q1, s1)" and "scrape e2 c u2 o2 s1 = (Inr q2, s2)"
  shows "take (length (requests s1)) (requests s2) = requests s1
    \<and> set (drop (length (requests s1)) (requests s2)) \<inter> visited_urls s1 = {}
    \<and> visited_urls s1 \<subseteq> visited_urls s2
    \<and> covers q1 q2"
proof -
  have s2: "s2 = snd (scrape e2 c u2 o2 s1)" and s1: "s1 = snd (scrape e1 c u1 o1 s0)"
    using assms by simp_all
  from grows_scrape [of s1 e2 c u2 o2] s2 obtain new where
    n: "requests s2 = requests s1 @ new" "set new \<inter> visited_urls s1 = {}"
       "visited_urls s2 = visited_urls s1 \<union> set new"
    unfolding grows_def by blast
  have q1: "q1 = results s1" using scrape_returns [of e1 c u1 o1 s0 q1] assms(1) by simp
  have q2: "q2 = results s2" using scrape_returns [of e2 c u2 o2 s1 q2] assms(2) by simp
  have "covers (results s1) (results s2)"
    using scrape_covers(1) [of "s1\<lparr>log := log s1 @ [StartingScrape u2]\<rparr>" e2 c u2 0]
    by (simp add: s2 scrape_results)
  with n q1 q2 show ?thesis by simp
qed

theorem second_scrape_witness:
  "fst (scrape (sample_env site3) (cfg 2 100) ''http://a/'' None init)
     = Inr (results (snd (scrape (sample_env site3) (cfg 2 100) ''http://a/'' None init)))
   \<and> requests (snd (scrape (sample_env site3) (cfg 2 100) ''http://a/'' None init))
       = [''http://a/'', ''http://a/1'', ''http://a/2'', ''http://a/3'']
   \<and> requests (snd (scrape (sample_env site3) (cfg 2 100) ''http://a/'' None
                  (snd (scrape (sample_env site3) (cfg 2 100) ''http://a/'' None init))))
       = [''http://a/'', ''http://a/1'', ''http://a/2'', ''http://a/3'']
   \<and> covers (results (snd (scrape (sample_env site3) (cfg 2 100) ''http://a/'' None init)))
        (results (snd (scrape (sample_env site3) (cfg 2 100) ''http://a/'' None
                  (snd (scrape (sample_env site3) (cfg 2 100) ''http://a/'' None init)))))"
proof -
  let ?e = "sample_env site3"
  let ?s1 = "scrape_page ?e (cfg 2 100) ''http://a/'' 0 (init\<lparr>log := log init @ [StartingScrape ''http://a/'']\<rparr>)"
  let ?s2 = "scrape_page ?e (cfg 2 100) ''http://a/'' 0 (?s1\<lparr>log := log ?s1 @ [StartingScrape ''http://a/'']\<rparr>)"
  have a: "scrape ?e (cfg 2 100) ''http://a/'' None init = (Inr (results ?s1), ?s1)"
    by (rule scrape_no_file)
  have b: "scrape ?e (cfg 2 100) ''http://a/'' None ?s1 = (Inr (results ?s2), ?s2)"
    by (rule scrape_no_file)
  have r1: "requests ?s1 = [''http://a/'', ''http://a/1'', ''http://a/2'', ''http://a/3'']"
    by (simp add: run site3_def)
  from second_scrape [OF a b]
  have t: "take (length (requests ?s1)) (requests ?s2) = requests ?s1"
    and d: "set (drop (length (requests ?s1)) (requests ?s2)) \<inter> visited_urls ?s1 = {}"
    and v: "visited_urls ?s1 \<subseteq> visited_urls ?s2"
    and c: "covers (results ?s1) (results ?s2)"
    by blast+
  have r2: "requests ?s2 = [''http://a/'', ''http://a/1'', ''http://a/2'', ''http://a/3'']"
    by (simp add: run site3_def)
  from a b r1 r2 c show ?thesis by simp
qed


end
